theory Spec2Isabelle
  imports Main "HOL-Library.Char_ord" "HOL-Library.List_Lexorder" "HOL-Library.Sublist"
    "HOL-Library.Multiset"
begin

section \<open>The ternary search trie of trie-completer.js\<close>

subsection \<open>JavaScript values\<close>

text \<open>
  The flag \<^verbatim>\<open>isCompletion\<close> of a node starts as \<^verbatim>\<open>null\<close> and is only ever
  assigned \<^verbatim>\<open>true\<close>; \<^verbatim>\<open>contains\<close> returns either the literal \<^verbatim>\<open>false\<close> or
  the flag of a node. These three values are kept apart.
\<close>

datatype jsval = JNull | JBool bool

fun truthy :: "jsval \<Rightarrow> bool" where
  "truthy JNull = False"
| "truthy (JBool b) = b"

text \<open>
  A string is a list of characters, compared by their codes. \<^verbatim>\<open>s[d]\<close> is the
  character at index \<open>d\<close>, or \<^verbatim>\<open>undefined\<close> (here \<open>None\<close>) when \<open>d\<close> is not an
  index of \<open>s\<close>.
\<close>

definition char_at :: "string \<Rightarrow> nat \<Rightarrow> char option" where
  "char_at s d = (if d < length s then Some (s ! d) else None)"

text \<open>
  \<^verbatim>\<open>a < b\<close> on two one-character strings compares the characters; as soon as one side
  is \<^verbatim>\<open>undefined\<close> the comparison is false. \<^verbatim>\<open>a > b\<close> is \<open>js_lt b a\<close>.
\<close>

fun js_lt :: "char option \<Rightarrow> char option \<Rightarrow> bool" where
  "js_lt (Some a) (Some b) = (a < b)"
| "js_lt _ _ = False"

text \<open>\<^verbatim>\<open>prefix + c\<close>: string concatenation renders \<^verbatim>\<open>undefined\<close> as the word.\<close>

fun js_append :: "string \<Rightarrow> char option \<Rightarrow> string" where
  "js_append p (Some a) = p @ [a]"
| "js_append p None = p @ ''undefined''"

subsection \<open>Nodes and the completer object\<close>

text \<open>
  \<^verbatim>\<open>Node\<close> of the source: the fields \<^verbatim>\<open>c\<close>, \<^verbatim>\<open>left\<close>, \<^verbatim>\<open>mid\<close>, \<^verbatim>\<open>right\<close> and
  \<^verbatim>\<open>isCompletion\<close>. The field \<^verbatim>\<open>completion\<close> is never read or written after
  the constructor and is left out. \<open>Null\<close> stands for an absent link (\<^verbatim>\<open>null\<close> or
  \<^verbatim>\<open>undefined\<close>, which the source only ever tests with \<^verbatim>\<open>!node\<close>).
\<close>

datatype node =
  Null
| Node (ch: "char option") (left: node) (mid: node) (right: node) (isCompletion: jsval)

record completer =
  root :: node
  size_c :: nat

text \<open>The object before \<^verbatim>\<open>_constructor\<close> runs: \<^verbatim>\<open>size = 0\<close>, no \<^verbatim>\<open>root\<close>.\<close>

definition init :: completer where
  "init = \<lparr>root = Null, size_c = 0\<rparr>"

subsection \<open>Insertion and lookup\<close>

text \<open>
  \<^verbatim>\<open>_put\<close>. A missing node is first replaced by a new one holding the current
  character; the source then runs the same comparisons on it. The model returns the
  node that the source returns, with the one field that the call assigns replaced.
\<close>

function trie_put :: "node \<Rightarrow> string \<Rightarrow> nat \<Rightarrow> node" where
  "trie_put node0 completion d =
    (let c = char_at completion d;
         node = (if node0 = Null then Node c Null Null Null JNull else node0)
     in if js_lt c (ch node) then
          Node (ch node) (trie_put (left node) completion d) (mid node) (right node)
            (isCompletion node)
        else if js_lt (ch node) c then
          Node (ch node) (left node) (mid node) (trie_put (right node) completion d)
            (isCompletion node)
        else if int d < int (length completion) - 1 then
          Node (ch node) (left node) (trie_put (mid node) completion (d + 1)) (right node)
            (isCompletion node)
        else
          Node (ch node) (left node) (mid node) (right node) (JBool True))"
  by pat_completeness auto
termination
proof (relation "measures [\<lambda>(n, s, d). size n, \<lambda>(n, s, d). length s - d]", goal_cases)
  case 1
  show ?case by simp
next
  case (2 node0 completion d c node)
  then show ?case by (cases node0; cases "char_at completion d") (auto split: if_splits)
next
  case (3 node0 completion d c node)
  then show ?case by (cases node0; cases "char_at completion d") (auto split: if_splits)
next
  case (4 node0 completion d c node)
  then show ?case by (cases node0; cases "char_at completion d") (auto split: if_splits)
qed

text \<open>\<^verbatim>\<open>_get\<close>: the node for the last character of \<open>pre\<close>, or \<open>Null\<close>.\<close>

fun trie_get :: "node \<Rightarrow> string \<Rightarrow> nat \<Rightarrow> node" where
  "trie_get Null pre d = Null"
| "trie_get (Node nc l m r f) pre d =
    (let c = char_at pre d
     in if js_lt c nc then trie_get l pre d
        else if js_lt nc c then trie_get r pre d
        else if int d < int (length pre) - 1 then trie_get m pre (d + 1)
        else Node nc l m r f)"

definition contains :: "completer \<Rightarrow> string \<Rightarrow> jsval" where
  "contains t completion =
    (let node = trie_get (root t) completion 0
     in if node = Null then JBool False else isCompletion node)"

definition addCompletion :: "completer \<Rightarrow> string \<Rightarrow> completer" where
  "addCompletion t completion =
    (let t1 = (if \<not> truthy (contains t completion) then t\<lparr>size_c := size_c t + 1\<rparr> else t)
     in t1\<lparr>root := trie_put (root t1) completion 0\<rparr>)"

subsection \<open>Prefix collection\<close>

text \<open>
  \<^verbatim>\<open>limit && completions.length == limit\<close>: an absent limit (\<open>None\<close>) and the
  number 0 are falsy, every other number is compared with the length. Limits are
  integers.
\<close>

definition limit_reached :: "int option \<Rightarrow> string list \<Rightarrow> bool" where
  "limit_reached limit completions =
    (case limit of None \<Rightarrow> False | Some k \<Rightarrow> k \<noteq> 0 \<and> int (length completions) = k)"

text \<open>
  \<^verbatim>\<open>collectCompletions\<close> pushes onto the array \<^verbatim>\<open>completions\<close>; the model returns the
  array after the call. The source only calls it on a node that it has tested to be
  present, so the equation for \<open>Null\<close> is never used by \<open>getCompletions\<close>.
\<close>

fun collectCompletions :: "node \<Rightarrow> string \<Rightarrow> string list \<Rightarrow> int option \<Rightarrow> string list" where
  "collectCompletions Null pre completions limit = completions"
| "collectCompletions (Node nc l m r f) pre completions limit =
    (if limit_reached limit completions then completions
     else
       let cs1 = (if truthy f then completions @ [js_append pre nc] else completions);
           cs2 = (if l \<noteq> Null then collectCompletions l pre cs1 limit else cs1);
           cs3 = (if m \<noteq> Null then collectCompletions m (js_append pre nc) cs2 limit else cs2)
       in if r \<noteq> Null then collectCompletions r pre cs3 limit else cs3)"

text \<open>The prefix argument may be absent (\<open>None\<close>); \<^verbatim>\<open>!prefix\<close> holds for it and for \<^verbatim>\<open>""\<close>.\<close>

definition getCompletions :: "completer \<Rightarrow> string option \<Rightarrow> int option \<Rightarrow> string list" where
  "getCompletions t pre limit =
    (case pre of
       None \<Rightarrow> []
     | Some p \<Rightarrow>
         if p = [] then []
         else
           let prefixNode = trie_get (root t) p 0
           in if prefixNode = Null then []
              else
                let completions = (if truthy (isCompletion prefixNode) then [p] else [])
                in if mid prefixNode = Null then completions
                   else collectCompletions (mid prefixNode) p completions limit)"

subsection \<open>Construction\<close>

text \<open>
  \<^verbatim>\<open>_constructor\<close> inserts \<^verbatim>\<open>completions[i]\<close> for pseudorandom indices \<open>i\<close>. The
  random source is made explicit: \<open>draws\<close> lists the integers that the successive
  calls \<^verbatim>\<open>getRandomInt(0, list.length)\<close> return. \<^verbatim>\<open>getRandomIndex\<close> redraws while
  the index is in \<^verbatim>\<open>indexCache\<close>; when the draws run out the loop has not finished,
  which is the value \<open>None\<close>. It returns the index, the updated cache and the
  remaining draws.
\<close>

fun getRandomIndex :: "nat set \<Rightarrow> nat list \<Rightarrow> (nat \<times> nat set \<times> nat list) option" where
  "getRandomIndex indexCache [] = None"
| "getRandomIndex indexCache (index # draws) =
    (if index \<in> indexCache then getRandomIndex indexCache draws
     else Some (index, insert index indexCache, draws))"

text \<open>
  The \<^verbatim>\<open>while\<close> loop of \<^verbatim>\<open>_constructor\<close>. \<^verbatim>\<open>getRandomInt(0, n)\<close> only returns
  indices below \<open>n\<close>; a draw outside the array is answered by \<open>None\<close>.
\<close>

function constructor_loop ::
  "string list \<Rightarrow> completer \<Rightarrow> nat set \<Rightarrow> nat \<Rightarrow> nat list \<Rightarrow> completer option" where
  "constructor_loop completions that indexCache totalCompletions draws =
    (if totalCompletions < length completions then
       (case getRandomIndex indexCache draws of
          None \<Rightarrow> None
        | Some (i, indexCache', draws') \<Rightarrow>
            if i < length completions then
              constructor_loop completions (addCompletion that (completions ! i)) indexCache'
                (totalCompletions + 1) draws'
            else None)
     else Some that)"
  by pat_completeness auto
termination
  by (relation "measure (\<lambda>(cs, that, cache, cnt, draws). length cs - cnt)") auto

text \<open>The exported function: \<^verbatim>\<open>this.size = 0\<close>, then \<^verbatim>\<open>_constructor(this)\<close>.\<close>

definition new_Completer :: "string list \<Rightarrow> nat list \<Rightarrow> completer option" where
  "new_Completer completions draws = constructor_loop completions init {} 0 draws"

subsection \<open>Notions used to state the properties\<close>

text \<open>
  The state after a sequence of \<^verbatim>\<open>addCompletion\<close> calls on a fresh object. Every
  state that construction and later calls of \<^verbatim>\<open>addCompletion\<close> reach has this form
  (\<open>new_Completer_build\<close> below).
\<close>

definition build :: "string list \<Rightarrow> completer" where
  "build xs = foldl addCompletion init xs"

text \<open>
  The strings spelled by the flagged nodes of a subtree, \<open>pre\<close> being the characters
  on the path above it, listed in the order in which \<^verbatim>\<open>collectCompletions\<close> pushes
  them; and the number of flagged nodes.
\<close>

fun entries :: "node \<Rightarrow> string \<Rightarrow> string list" where
  "entries Null pre = []"
| "entries (Node nc l m r f) pre =
    (if truthy f then [js_append pre nc] else []) @ entries l pre
      @ entries m (js_append pre nc) @ entries r pre"

fun countCompletions :: "node \<Rightarrow> nat" where
  "countCompletions Null = 0"
| "countCompletions (Node nc l m r f) =
    (if truthy f then 1 else 0) + countCompletions l + countCompletions m + countCompletions r"

text \<open>
  The characters of the nodes of one level: those reached from a node through
  \<^verbatim>\<open>left\<close> and \<^verbatim>\<open>right\<close> links only. \<open>ordered\<close> is the search-tree discipline at
  every node of the trie, stated with the comparison that the source uses.
\<close>

fun level_chars :: "node \<Rightarrow> char option list" where
  "level_chars Null = []"
| "level_chars (Node nc l m r f) = level_chars l @ [nc] @ level_chars r"

fun ordered :: "node \<Rightarrow> bool" where
  "ordered Null = True"
| "ordered (Node nc l m r f) =
    ((\<forall>x \<in> set (level_chars l). js_lt x nc) \<and> (\<forall>x \<in> set (level_chars r). js_lt nc x)
      \<and> ordered l \<and> ordered m \<and> ordered r)"

text \<open>Every node holds a character (none holds \<^verbatim>\<open>undefined\<close>).\<close>

fun defined_chars :: "node \<Rightarrow> bool" where
  "defined_chars Null = True"
| "defined_chars (Node nc l m r f) =
    (nc \<noteq> None \<and> defined_chars l \<and> defined_chars m \<and> defined_chars r)"

text \<open>No flag is the literal \<^verbatim>\<open>false\<close>: the source leaves it \<^verbatim>\<open>null\<close> or sets \<^verbatim>\<open>true\<close>.\<close>

fun flags_set :: "node \<Rightarrow> bool" where
  "flags_set Null = True"
| "flags_set (Node nc l m r f) =
    (f \<noteq> JBool False \<and> flags_set l \<and> flags_set m \<and> flags_set r)"

section \<open>Auxiliary facts\<close>

subsection \<open>The two cases of insertion\<close>

lemma js_lt_irrefl [simp]: "\<not> js_lt c c"
  by (cases c) auto

lemma trie_put_Null:
  "trie_put Null s d =
    (if int d < int (length s) - 1
     then Node (char_at s d) Null (trie_put Null s (d + 1)) Null JNull
     else Node (char_at s d) Null Null Null (JBool True))"
  by (subst trie_put.simps) (simp add: Let_def)

lemma trie_put_Node:
  "trie_put (Node nc l m r f) s d =
    (if js_lt (char_at s d) nc then Node nc (trie_put l s d) m r f
     else if js_lt nc (char_at s d) then Node nc l m (trie_put r s d) f
     else if int d < int (length s) - 1 then Node nc l (trie_put m s (d + 1)) r f
     else Node nc l m r (JBool True))"
  by (subst trie_put.simps) (simp add: Let_def)

subsection \<open>Collection with and without a limit\<close>

lemma collect_None [simp]: "collectCompletions n pre acc None = acc @ entries n pre"
  by (induction n arbitrary: pre acc) (auto simp: limit_reached_def Let_def)

lemma collect_zero [simp]: "collectCompletions n pre acc (Some 0) = acc @ entries n pre"
  by (induction n arbitrary: pre acc) (auto simp: limit_reached_def Let_def)

lemma take_take_append: "take k (take k xs @ ys) = take k (xs @ ys)"
  by (cases "k \<le> length xs") (auto simp: min_def)

lemma collect_Node:
  "collectCompletions (Node nc l m r f) pre acc limit =
    (if limit_reached limit acc then acc
     else collectCompletions r pre
            (collectCompletions m (js_append pre nc)
               (collectCompletions l pre
                  (if truthy f then acc @ [js_append pre nc] else acc) limit) limit) limit)"
  by (simp add: Let_def)

text \<open>With a positive limit the array is cut at the limit, whatever was collected before.\<close>

lemma collect_limit:
  "0 < k \<Longrightarrow> int (length acc) \<le> k \<Longrightarrow>
    collectCompletions n pre acc (Some k) = take (nat k) (acc @ entries n pre)"
proof (induction n arbitrary: pre acc)
  case Null
  then show ?case by simp
next
  case (Node nc l m r f)
  show ?case
  proof (cases "int (length acc) = k")
    case True
    with Node.prems show ?thesis by (simp add: limit_reached_def)
  next
    case False
    define cs1 where "cs1 = acc @ (if truthy f then [js_append pre nc] else [])"
    define cs2 where "cs2 = take (nat k) (cs1 @ entries l pre)"
    define cs3 where "cs3 = take (nat k) (cs2 @ entries m (js_append pre nc))"
    have tk: "int (length (take (nat k) xs)) \<le> k" for xs :: "string list"
      using Node.prems(1) by (auto simp: min_def)
    have l1: "int (length cs1) \<le> k"
      using False Node.prems by (auto simp: cs1_def)
    have l2: "int (length cs2) \<le> k" and l3: "int (length cs3) \<le> k"
      unfolding cs2_def cs3_def by (rule tk)+
    have "collectCompletions (Node nc l m r f) pre acc (Some k)
        = collectCompletions r pre
            (collectCompletions m (js_append pre nc) (collectCompletions l pre cs1 (Some k)) (Some k))
            (Some k)"
      using False Node.prems(1) unfolding collect_Node cs1_def by (simp add: limit_reached_def)
    also have "collectCompletions l pre cs1 (Some k) = cs2"
      unfolding cs2_def by (rule Node.IH(1)[OF Node.prems(1) l1])
    also have "collectCompletions m (js_append pre nc) cs2 (Some k) = cs3"
      unfolding cs3_def by (rule Node.IH(2)[OF Node.prems(1) l2])
    also have "collectCompletions r pre cs3 (Some k) = take (nat k) (cs3 @ entries r pre)"
      by (rule Node.IH(3)[OF Node.prems(1) l3])
    also have "\<dots> = take (nat k) (acc @ entries (Node nc l m r f) pre)"
      unfolding cs3_def cs2_def cs1_def by (simp only: take_take_append append_assoc entries.simps)
    finally show ?thesis .
  qed
qed

subsection \<open>Insertion\<close>

declare trie_put.simps [simp del]

lemma char_at_Some [simp]: "d < length s \<Longrightarrow> char_at s d = Some (s ! d)"
  by (simp add: char_at_def)

lemma js_lt_Some_iff: "js_lt x (Some b) = (\<exists>a. x = Some a \<and> a < b)"
  by (cases x) auto

lemma js_lt_asym: "js_lt x y \<Longrightarrow> \<not> js_lt y x"
  by (cases x; cases y) auto

lemma put_Null_level [simp]: "level_chars (trie_put Null s d) = [char_at s d]"
  by (subst trie_put_Null) simp

lemma put_Null_ordered [simp]: "ordered (trie_put Null s d)"
proof (induction "length s - d" arbitrary: d)
  case 0
  then show ?case by (subst trie_put_Null) simp
next
  case (Suc k)
  then have "ordered (trie_put Null s (d + 1))" by simp
  then show ?case by (subst trie_put_Null) simp
qed

lemma put_Null_flags [simp]: "flags_set (trie_put Null s d)"
proof (induction "length s - d" arbitrary: d)
  case 0
  then show ?case by (subst trie_put_Null) simp
next
  case (Suc k)
  then have "flags_set (trie_put Null s (d + 1))" by simp
  then show ?case by (subst trie_put_Null) simp
qed

lemma put_Null_defined: "d < length s \<Longrightarrow> defined_chars (trie_put Null s d)"
proof (induction "length s - d" arbitrary: d)
  case 0
  then show ?case by simp
next
  case (Suc k)
  show ?case
  proof (cases "d + 1 < length s")
    case True
    with Suc have "defined_chars (trie_put Null s (d + 1))" by simp
    with Suc.prems show ?thesis by (subst trie_put_Null) simp
  next
    case False
    with Suc.prems show ?thesis by (subst trie_put_Null) simp
  qed
qed

lemma put_Null_entries: "d < length s \<Longrightarrow> entries (trie_put Null s d) pre = [pre @ drop d s]"
proof (induction "length s - d" arbitrary: d pre)
  case 0
  then show ?case by simp
next
  case (Suc k)
  show ?case
  proof (cases "d + 1 < length s")
    case True
    with Suc have "entries (trie_put Null s (d + 1)) (pre @ [s ! d]) = [(pre @ [s ! d]) @ drop (d + 1) s]"
      by simp
    with Suc.prems True show ?thesis
      by (subst trie_put_Null) (simp add: Cons_nth_drop_Suc)
  next
    case False
    with Suc.prems have "drop d s = [s ! d]"
      by (metis Cons_nth_drop_Suc Suc_eq_plus1 drop_all not_less)
    with Suc.prems False show ?thesis by (subst trie_put_Null) simp
  qed
qed

lemma put_level_subset:
  "set (level_chars (trie_put n s d)) \<subseteq> insert (char_at s d) (set (level_chars n))"
proof (induction n)
  case Null
  then show ?case by simp
next
  case (Node nc l m r f)
  then show ?case by (auto simp: trie_put_Node)
qed

lemma put_ordered: "ordered n \<Longrightarrow> ordered (trie_put n s d)"
proof (induction n arbitrary: d)
  case Null
  then show ?case by simp
next
  case (Node nc l m r f)
  have l: "js_lt (char_at s d) nc \<Longrightarrow> \<forall>x \<in> set (level_chars (trie_put l s d)). js_lt x nc"
    using Node.prems put_level_subset[of l s d] by auto
  have r: "js_lt nc (char_at s d) \<Longrightarrow> \<forall>x \<in> set (level_chars (trie_put r s d)). js_lt nc x"
    using Node.prems put_level_subset[of r s d] by auto
  show ?case using Node l r by (simp add: trie_put_Node)
qed

lemma put_flags: "flags_set n \<Longrightarrow> flags_set (trie_put n s d)"
  by (induction n arbitrary: d) (auto simp: trie_put_Node)

lemma put_defined: "defined_chars n \<Longrightarrow> d < length s \<Longrightarrow> defined_chars (trie_put n s d)"
  by (induction n arbitrary: d) (auto simp: trie_put_Node put_Null_defined)

text \<open>Insertion adds the suffix of the string that is still to be spelled, and nothing else.\<close>

lemma put_entries:
  "defined_chars n \<Longrightarrow> d < length s \<Longrightarrow>
    set (entries (trie_put n s d) pre) = insert (pre @ drop d s) (set (entries n pre))"
proof (induction n arbitrary: d pre)
  case Null
  then show ?case by (simp add: put_Null_entries)
next
  case (Node nc l m r f)
  from Node.prems obtain a where nc: "nc = Some a" by auto
  have c: "char_at s d = Some (s ! d)" using Node.prems by simp
  consider (lt) "s ! d < a" | (gt) "a < s ! d" | (eqm) "s ! d = a" "d + 1 < length s"
    | (eqf) "s ! d = a" "\<not> d + 1 < length s"
    by force
  then show ?case
  proof cases
    case lt
    then show ?thesis using Node.prems Node.IH(1)[of d pre] by (simp add: trie_put_Node nc c)
  next
    case gt
    then have "\<not> s ! d < a" by auto
    with gt show ?thesis using Node.prems Node.IH(3)[of d pre] by (simp add: trie_put_Node nc c)
  next
    case eqm
    have "(pre @ [a]) @ drop (d + 1) s = pre @ drop d s"
      using eqm Node.prems Cons_nth_drop_Suc[of d s] by simp
    then show ?thesis using eqm Node.prems Node.IH(2)[of "d + 1" "pre @ [a]"]
      by (simp add: trie_put_Node nc c)
  next
    case eqf
    with Node.prems have "drop d s = [a]"
      by (metis Cons_nth_drop_Suc Suc_eq_plus1 drop_all not_less)
    then show ?thesis using eqf Node.prems by (auto simp: trie_put_Node nc c)
  qed
qed

subsection \<open>Lookup\<close>

lemma entries_pre: "defined_chars n \<Longrightarrow> entries n pre = map ((@) pre) (entries n [])"
proof (induction n arbitrary: pre)
  case Null
  then show ?case by simp
next
  case (Node nc l m r f)
  from Node.prems obtain a where nc: "nc = Some a" by auto
  have d: "defined_chars l" "defined_chars m" "defined_chars r"
    using Node.prems by simp_all
  have "entries m (pre @ [a]) = map ((@) (pre @ [a])) (entries m [])"
    by (rule Node.IH(2)[OF d(2)])
  moreover have "entries m [a] = map ((@) [a]) (entries m [])"
    by (rule Node.IH(2)[OF d(2)])
  moreover have "entries l pre = map ((@) pre) (entries l [])"
    by (rule Node.IH(1)[OF d(1)])
  moreover have "entries r pre = map ((@) pre) (entries r [])"
    by (rule Node.IH(3)[OF d(3)])
  ultimately show ?case by (simp add: nc)
qed

lemma entries_first:
  "defined_chars n \<Longrightarrow> w \<in> set (entries n []) \<Longrightarrow>
    \<exists>y ys. w = y # ys \<and> Some y \<in> set (level_chars n)"
proof (induction n)
  case Null
  then show ?case by simp
next
  case (Node nc l m r f)
  from Node.prems obtain a where nc: "nc = Some a" by auto
  have m: "entries m [a] = map ((#) a) (entries m [])"
    using Node.prems entries_pre[of m "[a]"] by simp
  from Node.prems(2) consider "w = [a]" | "w \<in> set (entries l [])"
    | "w \<in> set (entries m [a])" | "w \<in> set (entries r [])"
    by (auto simp: nc split: if_splits)
  then show ?case
  proof cases
    case 1
    then show ?thesis by (simp add: nc)
  next
    case 2
    with Node show ?thesis by auto
  next
    case 3
    then show ?thesis by (auto simp: m nc)
  next
    case 4
    with Node show ?thesis by auto
  qed
qed

lemma get_defined: "defined_chars n \<Longrightarrow> defined_chars (trie_get n p d)"
  by (induction n arbitrary: d) (auto simp: Let_def)

lemma get_flags: "flags_set n \<Longrightarrow> flags_set (trie_get n p d)"
  by (induction n arbitrary: d) (auto simp: Let_def)

lemma filter_empty_first:
  "(\<And>w. w \<in> set ws \<Longrightarrow> \<exists>y ys. w = y # ys \<and> y \<noteq> x) \<Longrightarrow> filter (prefix (x # q)) ws = []"
  by (induction ws) fastforce+

text \<open>
  In an ordered trie the stored strings that extend \<open>drop d p\<close> are found at the node
  that \<^verbatim>\<open>_get\<close> returns: its own string if flagged, then those below its \<^verbatim>\<open>mid\<close> link.
\<close>

lemma get_filter:
  "defined_chars n \<Longrightarrow> ordered n \<Longrightarrow> d < length p \<Longrightarrow>
    filter (prefix (drop d p)) (entries n []) =
      (case trie_get n p d of
         Null \<Rightarrow> []
       | Node nc l m r f \<Rightarrow> (if truthy f then [drop d p] else []) @ entries m (drop d p))"
proof (induction n arbitrary: d)
  case Null
  then show ?case by simp
next
  case (Node nc l m r f)
  from Node.prems obtain a where nc: "nc = Some a" by auto
  have dc: "defined_chars l" "defined_chars m" "defined_chars r"
    and od: "ordered l" "ordered m" "ordered r"
    using Node.prems by simp_all
  define x where "x = p ! d"
  define q' where "q' = drop (d + 1) p"
  define F where "F = (if truthy f then [[a]] else [])"
  have q: "drop d p = x # q'"
    using Node.prems(3) by (simp add: x_def q'_def Cons_nth_drop_Suc)
  have c: "char_at p d = Some x" using Node.prems by (simp add: x_def)
  have em: "entries m [a] = map ((#) a) (entries m [])"
    using dc entries_pre[of m "[a]"] by simp
  have es: "entries (Node nc l m r f) [] = F @ entries l [] @ map ((#) a) (entries m []) @ entries r []"
    by (simp add: nc em F_def)
  have fl: "\<exists>y ys. w = y # ys \<and> y < a" if "w \<in> set (entries l [])" for w
    using entries_first[of l w] that Node.prems(1,2) by (auto simp: nc js_lt_Some_iff)
  have fr: "\<exists>y ys. w = y # ys \<and> a < y" if "w \<in> set (entries r [])" for w
    using entries_first[of r w] that Node.prems(1,2) by (fastforce simp: nc)
  consider (lt) "x < a" | (gt) "a < x" | (eqm) "x = a" "d + 1 < length p"
    | (eqf) "x = a" "\<not> d + 1 < length p"
    by force
  then show ?case
  proof cases
    case lt
    have "filter (prefix (x # q')) (entries r []) = []"
      using fr lt by (intro filter_empty_first) fastforce
    moreover have "filter (prefix (x # q')) (map ((#) a) (entries m [])) = []"
      using lt by (intro filter_empty_first) auto
    moreover have "filter (prefix (x # q')) F = []"
      using lt by (simp add: F_def)
    ultimately have "filter (prefix (drop d p)) (entries (Node nc l m r f) []) =
        filter (prefix (drop d p)) (entries l [])"
      unfolding es q by simp
    also have "\<dots> = (case trie_get l p d of Null \<Rightarrow> []
       | Node nc l m r f \<Rightarrow> (if truthy f then [drop d p] else []) @ entries m (drop d p))"
      by (rule Node.IH(1)[OF dc(1) od(1) Node.prems(3)])
    also have "trie_get l p d = trie_get (Node nc l m r f) p d"
      using lt by (simp add: nc c)
    finally show ?thesis .
  next
    case gt
    then have ngt: "\<not> x < a" by auto
    have "filter (prefix (x # q')) (entries l []) = []"
      using fl gt by (intro filter_empty_first) fastforce
    moreover have "filter (prefix (x # q')) (map ((#) a) (entries m [])) = []"
      using gt by (intro filter_empty_first) auto
    moreover have "filter (prefix (x # q')) F = []"
      using gt by (simp add: F_def)
    ultimately have "filter (prefix (drop d p)) (entries (Node nc l m r f) []) =
        filter (prefix (drop d p)) (entries r [])"
      unfolding es q by simp
    also have "\<dots> = (case trie_get r p d of Null \<Rightarrow> []
       | Node nc l m r f \<Rightarrow> (if truthy f then [drop d p] else []) @ entries m (drop d p))"
      by (rule Node.IH(3)[OF dc(3) od(3) Node.prems(3)])
    also have "trie_get r p d = trie_get (Node nc l m r f) p d"
      using gt ngt by (simp add: nc c)
    finally show ?thesis .
  next
    case eqm
    have q'ne: "q' \<noteq> []" using eqm by (simp add: q'_def)
    have dq: "drop d p = a # q'" using q eqm by simp
    have "filter (prefix (a # q')) (entries l []) = []"
      using fl by (intro filter_empty_first) fastforce
    moreover have "filter (prefix (a # q')) (entries r []) = []"
      using fr by (intro filter_empty_first) fastforce
    moreover have "filter (prefix (a # q')) F = []"
      using q'ne by (simp add: F_def)
    moreover have "filter (prefix (a # q')) (map ((#) a) (entries m [])) =
      map ((#) a) (filter (prefix q') (entries m []))"
      by (simp add: filter_map comp_def)
    ultimately have "filter (prefix (drop d p)) (entries (Node nc l m r f) []) =
        map ((#) a) (filter (prefix q') (entries m []))"
      unfolding es dq by simp
    also have ih: "filter (prefix q') (entries m []) =
      (case trie_get m p (d + 1) of Null \<Rightarrow> []
       | Node nc l m r f \<Rightarrow> (if truthy f then [q'] else []) @ entries m q')"
      unfolding q'_def using eqm(2) by (rule Node.IH(2)[OF dc(2) od(2)])
    also have "map ((#) a) (case trie_get m p (d + 1) of Null \<Rightarrow> []
       | Node nc l m r f \<Rightarrow> (if truthy f then [q'] else []) @ entries m q')
      = (case trie_get m p (d + 1) of Null \<Rightarrow> []
       | Node nc l m r f \<Rightarrow> (if truthy f then [a # q'] else []) @ entries m (a # q'))"
    proof (cases "trie_get m p (d + 1)")
      case Null
      then show ?thesis by simp
    next
      case (Node nc' l' m' r' f')
      then have "defined_chars m'"
        using get_defined[of m p "d + 1"] dc(2) by simp
      then have "entries m' (a # q') = map ((#) a) (entries m' q')"
        using entries_pre[of m' "a # q'"] entries_pre[of m' q'] by simp
      then show ?thesis using Node by simp
    qed
    also have "trie_get m p (d + 1) = trie_get (Node nc l m r f) p d"
      using eqm by (simp add: nc c)
    finally show ?thesis unfolding dq .
  next
    case eqf
    with Node.prems have dq: "drop d p = [a]" by (simp add: q q'_def)
    have "filter (prefix [a]) (entries l []) = []"
      using fl by (intro filter_empty_first) fastforce
    moreover have "filter (prefix [a]) (entries r []) = []"
      using fr by (intro filter_empty_first) fastforce
    moreover have "filter (prefix [a]) (map ((#) a) (entries m [])) = map ((#) a) (entries m [])"
      by (simp add: filter_map comp_def)
    moreover have "filter (prefix [a]) F = F"
      by (simp add: F_def)
    ultimately have "filter (prefix (drop d p)) (entries (Node nc l m r f) []) =
        F @ map ((#) a) (entries m [])"
      unfolding es dq by simp
    moreover have "trie_get (Node nc l m r f) p d = Node nc l m r f"
      using eqf by (simp add: nc c)
    ultimately show ?thesis by (simp add: dq F_def em)
  qed
qed

subsection \<open>States reached by insertion\<close>

lemma getCompletions_unlimited:
  "getCompletions t (Some p) None =
    (if p = [] then []
     else case trie_get (root t) p 0 of
            Null \<Rightarrow> []
          | Node nc l m r f \<Rightarrow> (if truthy f then [p] else []) @ entries m p)"
  by (cases "trie_get (root t) p 0") (auto simp: getCompletions_def Let_def)

lemma getCompletions_filter:
  assumes "defined_chars (root t)" "ordered (root t)" "p \<noteq> []"
  shows "getCompletions t (Some p) None = filter (prefix p) (entries (root t) [])"
proof (cases "trie_get (root t) p 0")
  case Null
  then show ?thesis
    using get_filter[OF assms(1,2), of 0 p] assms(3) by (simp add: getCompletions_unlimited)
next
  case (Node nc l m r f)
  then show ?thesis
    using get_filter[OF assms(1,2), of 0 p] assms(3) by (simp add: getCompletions_unlimited)
qed

lemma count_entries: "countCompletions n = length (entries n pre)"
  by (induction n arbitrary: pre) auto

lemma entries_distinct: "defined_chars n \<Longrightarrow> ordered n \<Longrightarrow> distinct (entries n [])"
proof (induction n)
  case Null
  then show ?case by simp
next
  case (Node nc l m r f)
  from Node.prems obtain a where nc: "nc = Some a" by auto
  have em: "entries m [a] = map ((#) a) (entries m [])"
    using Node.prems entries_pre[of m "[a]"] by simp
  have fl: "\<exists>y ys. w = y # ys \<and> y < a" if "w \<in> set (entries l [])" for w
    using entries_first[of l w] that Node.prems(1,2) by (auto simp: nc js_lt_Some_iff)
  have fr: "\<exists>y ys. w = y # ys \<and> a < y" if "w \<in> set (entries r [])" for w
    using entries_first[of r w] that Node.prems(1,2) by (fastforce simp: nc)
  have fm: "w \<noteq> []" if "w \<in> set (entries m [])" for w
    using entries_first[of m w] that Node.prems(1) by auto
  have d: "distinct (entries l [])" "distinct (entries m [])" "distinct (entries r [])"
    using Node by simp_all
  have dm: "distinct (map ((#) a) (entries m []))"
    using d(2) by (simp add: distinct_map)
  have 1: "[a] \<notin> set (entries l [])" using fl by fastforce
  have 2: "[a] \<notin> set (entries r [])" using fr by fastforce
  have 3: "[a] \<notin> (#) a ` set (entries m [])" using fm by auto
  have 4: "set (entries l []) \<inter> (#) a ` set (entries m []) = {}" using fl by fastforce
  have 5: "set (entries l []) \<inter> set (entries r []) = {}"
  proof -
    have False if "w \<in> set (entries l [])" "w \<in> set (entries r [])" for w
      using fl[OF that(1)] fr[OF that(2)] by auto
    then show ?thesis by blast
  qed
  have 6: "(#) a ` set (entries m []) \<inter> set (entries r []) = {}" using fr by fastforce
  show ?case using d(1,3) dm 1 2 3 4 5 6 by (simp add: nc em Int_Un_distrib)
qed

lemma contains_truthy:
  assumes "defined_chars (root t)" "ordered (root t)" "s \<noteq> []"
  shows "truthy (contains t s) \<longleftrightarrow> s \<in> set (entries (root t) [])"
proof -
  have "s \<in> set (entries (root t) []) \<longleftrightarrow> s \<in> set (filter (prefix s) (entries (root t) []))"
    by simp
  also have "\<dots> \<longleftrightarrow> truthy (contains t s)"
  proof (cases "trie_get (root t) s 0")
    case Null
    then show ?thesis
      using get_filter[OF assms(1,2), of 0 s] assms(3) by (simp add: contains_def)
  next
    case (Node nc l m r f)
    then have "defined_chars m"
      using get_defined[OF assms(1), of s 0] by simp
    then have "s \<notin> set (entries m s)"
      using entries_pre[of m s] entries_first[of m "[]"] by auto
    then show ?thesis
      using get_filter[OF assms(1,2), of 0 s] assms(3) Node by (simp add: contains_def)
  qed
  finally show ?thesis by simp
qed

lemma build_snoc: "build (xs @ [x]) = addCompletion (build xs) x"
  by (simp add: build_def)

lemma root_addCompletion [simp]: "root (addCompletion t s) = trie_put (root t) s 0"
  by (simp add: addCompletion_def)

lemma size_addCompletion:
  "size_c (addCompletion t s) = (if truthy (contains t s) then size_c t else size_c t + 1)"
  by (simp add: addCompletion_def)

lemma build_ordered: "ordered (root (build xs))"
  by (induction xs rule: rev_induct) (simp_all add: build_snoc put_ordered build_def init_def)

lemma build_flags: "flags_set (root (build xs))"
  by (induction xs rule: rev_induct) (simp_all add: build_snoc put_flags build_def init_def)

lemma build_defined: "[] \<notin> set xs \<Longrightarrow> defined_chars (root (build xs))"
proof (induction xs rule: rev_induct)
  case Nil
  show ?case by (simp add: build_def init_def)
next
  case (snoc x xs)
  then have "x \<noteq> []" "[] \<notin> set xs" by auto
  with snoc.IH show ?case by (simp add: build_snoc put_defined)
qed

lemma build_entries:
  "[] \<notin> set xs \<Longrightarrow> set (entries (root (build xs)) []) = set xs"
proof (induction xs rule: rev_induct)
  case Nil
  then show ?case by (simp add: build_def init_def)
next
  case (snoc x xs)
  then have "defined_chars (root (build xs))" "x \<noteq> []"
    by (auto simp: build_defined)
  then show ?case using snoc put_entries[of "root (build xs)" 0 x "[]"]
    by (simp add: build_snoc)
qed

lemma build_contains:
  "[] \<notin> set xs \<Longrightarrow> s \<noteq> [] \<Longrightarrow> truthy (contains (build xs) s) \<longleftrightarrow> s \<in> set xs"
  using contains_truthy[of "build xs" s] by (simp add: build_defined build_ordered build_entries)

lemma build_size: "[] \<notin> set xs \<Longrightarrow> size_c (build xs) = card (set xs)"
proof (induction xs rule: rev_induct)
  case Nil
  then show ?case by (simp add: build_def init_def)
next
  case (snoc x xs)
  then have ne: "[] \<notin> set xs" "x \<noteq> []" by auto
  show ?case
    using snoc.IH[OF ne(1)] build_contains[OF ne, of ] 
    by (simp add: build_snoc size_addCompletion card_insert_if)
qed

lemma build_count:
  "[] \<notin> set xs \<Longrightarrow> countCompletions (root (build xs)) = card (set xs)"
  using entries_distinct[of "root (build xs)"] distinct_card[of "entries (root (build xs)) []"]
  by (simp add: build_defined build_ordered build_entries count_entries[of _ "[]"])

subsection \<open>Repeated insertion and construction\<close>

declare constructor_loop.simps [simp del]

lemma put_get_Null:
  "trie_get (trie_put Null s d) s d \<noteq> Null \<and>
   isCompletion (trie_get (trie_put Null s d) s d) = JBool True"
proof (induction "length s - d" arbitrary: d)
  case 0
  then show ?case by (simp add: trie_put_Null[of s d])
next
  case (Suc k)
  then have "trie_get (trie_put Null s (d + 1)) s (d + 1) \<noteq> Null \<and>
    isCompletion (trie_get (trie_put Null s (d + 1)) s (d + 1)) = JBool True"
    by simp
  then show ?case by (simp add: trie_put_Null[of s d])
qed

lemma put_get:
  "trie_get (trie_put n s d) s d \<noteq> Null \<and>
   isCompletion (trie_get (trie_put n s d) s d) = JBool True"
proof (induction n arbitrary: d)
  case Null
  show ?case by (rule put_get_Null)
next
  case (Node nc l m r f)
  then show ?case by (simp add: trie_put_Node js_lt_asym)
qed

lemma put_id:
  "trie_get n s d \<noteq> Null \<Longrightarrow> isCompletion (trie_get n s d) = JBool True \<Longrightarrow> trie_put n s d = n"
proof (induction n arbitrary: d)
  case Null
  then show ?case by simp
next
  case (Node nc l m r f)
  then show ?case by (auto simp: trie_put_Node Let_def split: if_splits)
qed

lemma truthy_iff: "truthy v \<longleftrightarrow> v = JBool True"
  by (cases v) auto

lemma add_contained: "truthy (contains t s) \<Longrightarrow> addCompletion t s = t"
proof -
  assume a: "truthy (contains t s)"
  then have "trie_get (root t) s 0 \<noteq> Null"
    "isCompletion (trie_get (root t) s 0) = JBool True"
    by (auto simp: contains_def Let_def truthy_iff split: if_splits)
  then have "trie_put (root t) s 0 = root t" by (rule put_id)
  with a show ?thesis by (simp add: addCompletion_def)
qed

lemma contains_add: "contains (addCompletion t s) s = JBool True"
  using put_get[of "root t" s 0] by (simp add: contains_def)

lemma gri_Some:
  "getRandomIndex cache draws = Some (i, cache', draws') \<Longrightarrow>
    i \<notin> cache \<and> cache' = insert i cache \<and> i \<in> set draws \<and> set draws' \<subseteq> set draws
      \<and> set draws \<subseteq> insert i (cache \<union> set draws')"
  by (induction draws) (auto split: if_splits)

lemma gri_None: "getRandomIndex cache draws = None \<Longrightarrow> set draws \<subseteq> cache"
  by (induction draws) (auto split: if_splits)

lemma loop_result:
  "constructor_loop cs that cache cnt draws = Some t \<Longrightarrow> distinct js \<Longrightarrow> cache = set js \<Longrightarrow>
    cnt = length js \<Longrightarrow> set js \<subseteq> {..<length cs} \<Longrightarrow> that = build (map ((!) cs) js) \<Longrightarrow>
    \<exists>ks. distinct ks \<and> set ks = {..<length cs} \<and> t = build (map ((!) cs) ks)"
proof (induction cs that cache cnt draws arbitrary: js rule: constructor_loop.induct)
  case (1 cs that cache cnt draws)
  show ?case
  proof (cases "cnt < length cs")
    case True
    with "1.prems"(1) obtain i cache' draws' where
      g: "getRandomIndex cache draws = Some (i, cache', draws')" and i: "i < length cs"
      and r: "constructor_loop cs (addCompletion that (cs ! i)) cache' (cnt + 1) draws' = Some t"
      by (subst (asm) constructor_loop.simps) (auto split: option.splits if_splits)
    from gri_Some[OF g] have gi: "i \<notin> cache" "cache' = insert i cache" by simp_all
    show ?thesis
    proof (rule "1.IH"[OF True g refl refl i r, of "js @ [i]"])
      show "distinct (js @ [i])" using "1.prems" gi by simp
      show "cache' = set (js @ [i])" using "1.prems" gi by simp
      show "cnt + 1 = length (js @ [i])" using "1.prems" by simp
      show "set (js @ [i]) \<subseteq> {..<length cs}" using "1.prems" i by simp
      show "addCompletion that (cs ! i) = build (map ((!) cs) (js @ [i]))"
        using "1.prems" by (simp add: build_snoc)
    qed
  next
    case False
    with "1.prems"(1) have t: "t = that" by (subst (asm) constructor_loop.simps) simp
    have "card (set js) = length js" using "1.prems" by (simp add: distinct_card)
    with False "1.prems" have "card (set js) \<ge> card {..<length cs}" by simp
    with "1.prems"(5) have "set js = {..<length cs}"
      by (simp add: card_seteq)
    with t "1.prems" show ?thesis by blast
  qed
qed

lemma loop_returns:
  "{..<length cs} \<subseteq> cache \<union> set draws \<Longrightarrow> \<forall>d \<in> set draws. d < length cs \<Longrightarrow> finite cache \<Longrightarrow>
    card cache = cnt \<Longrightarrow> \<exists>t. constructor_loop cs that cache cnt draws = Some t"
proof (induction cs that cache cnt draws rule: constructor_loop.induct)
  case (1 cs that cache cnt draws)
  show ?case
  proof (cases "cnt < length cs")
    case True
    have "\<not> {..<length cs} \<subseteq> cache"
    proof
      assume "{..<length cs} \<subseteq> cache"
      then have "card {..<length cs} \<le> card cache" using "1.prems"(3) by (rule card_mono[rotated])
      with True "1.prems"(4) show False by simp
    qed
    with "1.prems"(1) have "\<not> set draws \<subseteq> cache" by blast
    then obtain i cache' draws' where g: "getRandomIndex cache draws = Some (i, cache', draws')"
      using gri_None[of cache draws] by (cases "getRandomIndex cache draws") auto
    note gs = gri_Some[OF g]
    have i: "i < length cs" using gs "1.prems"(2) by blast
    have "\<exists>t. constructor_loop cs (addCompletion that (cs ! i)) cache' (cnt + 1) draws' = Some t"
    proof (rule "1.IH"[OF True g refl refl i])
      show "{..<length cs} \<subseteq> cache' \<union> set draws'" using gs "1.prems"(1) by auto
      show "\<forall>d\<in>set draws'. d < length cs" using gs "1.prems"(2) by blast
      show "finite cache'" using gs "1.prems"(3) by simp
      show "card cache' = cnt + 1" using gs "1.prems"(3,4) by simp
    qed
    then show ?thesis using True g i by (subst constructor_loop.simps) simp
  next
    case False
    then show ?thesis by (subst constructor_loop.simps) simp
  qed
qed

lemma perm_indices:
  "distinct ks \<Longrightarrow> set ks = {..<length cs} \<Longrightarrow> mset (map ((!) cs) ks) = mset cs"
proof -
  assume a: "distinct ks" "set ks = {..<length cs}"
  then have "mset ks = mset [0..<length cs]"
    by (intro iffD1[OF set_eq_iff_mset_eq_distinct]) (auto simp: atLeast0LessThan)
  then have "mset (map ((!) cs) ks) = mset (map ((!) cs) [0..<length cs])"
    by (metis mset_map)
  then show ?thesis by (simp add: map_nth)
qed

text \<open>
  Construction inserts the input strings in the order of the distinct indices drawn: a
  permutation of the input.
\<close>

lemma new_Completer_build:
  "new_Completer cs draws = Some t \<Longrightarrow> \<exists>ys. mset ys = mset cs \<and> t = build ys"
proof -
  assume "new_Completer cs draws = Some t"
  then have "constructor_loop cs init {} 0 draws = Some t" by (simp add: new_Completer_def)
  from loop_result[OF this, of "[]"] obtain ks where
    "distinct ks" "set ks = {..<length cs}" "t = build (map ((!) cs) ks)"
    by (auto simp: build_def)
  then show ?thesis using perm_indices[of ks cs] by blast
qed

text \<open>Calls of \<^verbatim>\<open>addCompletion\<close> after construction extend the list of insertions.\<close>

lemma build_append: "foldl addCompletion (build ys) zs = build (ys @ zs)"
  by (simp add: build_def)

text \<open>
  The loop returns once the draws have covered every index; a source that never yields
  some index keeps the source's loop spinning.
\<close>

lemma new_Completer_returns:
  "set draws = {..<length cs} \<Longrightarrow> \<exists>t. new_Completer cs draws = Some t"
  unfolding new_Completer_def by (rule loop_returns) auto

section \<open>The properties\<close>

text \<open>
  Claim C1: for a non-empty prefix \<open>p\<close> the list returned by \<^verbatim>\<open>getCompletions(p)\<close>
  without a limit is strictly ascending in lexical order, the traversal visiting the
  left subtree before it appends the node's own completion. The source's
  \<^verbatim>\<open>collectCompletions\<close> pushes the node's own completion first and only then goes
  left. After \<^verbatim>\<open>"ab"\<close> and \<^verbatim>\<open>"aa"\<close> are inserted in this order (the order that the
  constructor takes on the input \<^verbatim>\<open>["ab", "aa"]\<close> when it draws index 0 and then 1),
  \<^verbatim>\<open>getCompletions("a")\<close> is \<^verbatim>\<open>["ab", "aa"]\<close>, which is not ascending.
\<close>

theorem C1_order_violated:
  "new_Completer [''ab'', ''aa''] [0, 1] = Some (build [''ab'', ''aa''])
   \<and> getCompletions (build [''ab'', ''aa'']) (Some ''a'') None = [''ab'', ''aa'']
   \<and> ''aa'' < ''ab''
   \<and> \<not> sorted_wrt (<) (getCompletions (build [''ab'', ''aa'']) (Some ''a'') None)"
  by code_simp

text \<open>
  Claim C2, as stated for every prefix, fails at the empty prefix: the trie that stores
  \<^verbatim>\<open>"a"\<close> answers \<^verbatim>\<open>getCompletions("")\<close> with the empty list, although \<^verbatim>\<open>"a"\<close> is
  stored and starts with the empty string.
\<close>

theorem C2_empty_prefix_counterexample:
  "''a'' \<in> set [''a''] \<and> prefix '''' ''a''
   \<and> ''a'' \<notin> set (getCompletions (build [''a'']) (Some '''') None)"
  by code_simp

text \<open>
  Claim C2, amended: for every trie built from non-empty strings and every non-empty
  prefix \<open>p\<close>, \<^verbatim>\<open>getCompletions(p)\<close> without a limit returns exactly the stored
  strings that start with \<open>p\<close>, each of them once.
\<close>

theorem C2_prefix_completeness:
  assumes "[] \<notin> set xs" and "p \<noteq> []"
  shows "set (getCompletions (build xs) (Some p) None) = {s \<in> set xs. prefix p s}
    \<and> distinct (getCompletions (build xs) (Some p) None)"
proof -
  have e: "getCompletions (build xs) (Some p) None = filter (prefix p) (entries (root (build xs)) [])"
    using assms by (simp add: getCompletions_filter build_defined build_ordered)
  have "distinct (entries (root (build xs)) [])"
    using assms(1) by (simp add: entries_distinct build_defined build_ordered)
  then show ?thesis using assms(1) by (auto simp: e build_entries)
qed

theorem C2_prefix_completeness_witness:
  "[] \<notin> set [''a'', ''aa'', ''aaab'', ''abc'', ''def''] \<and> ''a'' \<noteq> []
   \<and> set (getCompletions (build [''a'', ''aa'', ''aaab'', ''abc'', ''def'']) (Some ''a'') None)
       = {''a'', ''aa'', ''aaab'', ''abc''}"
proof -
  have h: "[] \<notin> set [''a'', ''aa'', ''aaab'', ''abc'', ''def'']" "''a'' \<noteq> []"
    by simp_all
  have "{s \<in> set [''a'', ''aa'', ''aaab'', ''abc'', ''def'']. prefix ''a'' s}
      = {''a'', ''aa'', ''aaab'', ''abc''}"
    by auto
  with C2_prefix_completeness[OF h] h show ?thesis by simp
qed

text \<open>
  Claim C3, as stated, fails in two ways. For a string that was never inserted but whose
  descent ends at an unflagged node, \<^verbatim>\<open>contains\<close> returns \<^verbatim>\<open>null\<close>, not \<^verbatim>\<open>false\<close>:
  \<^verbatim>\<open>"ab"\<close> in the trie that stores \<^verbatim>\<open>"abc"\<close>. For the empty string the descent stops at
  the root node, whose flag is returned: \<^verbatim>\<open>contains("")\<close> is \<^verbatim>\<open>true\<close> in the trie that
  stores \<^verbatim>\<open>"a"\<close>.
\<close>

theorem C3_not_false_counterexample:
  "''ab'' \<notin> set [''abc''] \<and> contains (build [''abc'']) ''ab'' = JNull
   \<and> contains (build [''abc'']) ''ab'' \<noteq> JBool False
   \<and> '''' \<notin> set [''a''] \<and> contains (build [''a'']) '''' = JBool True"
  by code_simp

text \<open>
  Claim C3, amended: in a trie built from non-empty strings, \<^verbatim>\<open>contains(s)\<close> returns
  \<^verbatim>\<open>true\<close> for every inserted string \<open>s\<close>, and one of the falsy values \<^verbatim>\<open>false\<close> and
  \<^verbatim>\<open>null\<close> for every non-empty string that was never inserted.
\<close>

theorem C3_membership:
  assumes "[] \<notin> set xs"
  shows "(s \<in> set xs \<longrightarrow> contains (build xs) s = JBool True)
    \<and> (s \<noteq> [] \<and> s \<notin> set xs \<longrightarrow>
          \<not> truthy (contains (build xs) s) \<and> contains (build xs) s \<in> {JBool False, JNull})"
proof -
  have "contains (build xs) s = JBool True" if "s \<in> set xs"
  proof -
    from that assms have "s \<noteq> []" by auto
    with that assms show ?thesis by (simp add: build_contains flip: truthy_iff)
  qed
  moreover have "\<not> truthy (contains (build xs) s) \<and> contains (build xs) s \<in> {JBool False, JNull}"
    if "s \<noteq> []" "s \<notin> set xs"
  proof -
    from that assms have "\<not> truthy (contains (build xs) s)" by (simp add: build_contains)
    then show ?thesis by (cases "contains (build xs) s") auto
  qed
  ultimately show ?thesis by blast
qed

theorem C3_membership_witness:
  "[] \<notin> set [''a'', ''aa'', ''aaab'', ''abc'', ''def'']
   \<and> contains (build [''a'', ''aa'', ''aaab'', ''abc'', ''def'']) ''aa'' = JBool True
   \<and> contains (build [''a'', ''aa'', ''aaab'', ''abc'', ''def'']) ''ab'' \<in> {JBool False, JNull}"
proof -
  have h: "[] \<notin> set [''a'', ''aa'', ''aaab'', ''abc'', ''def'']" by simp
  have i: "''aa'' \<in> set [''a'', ''aa'', ''aaab'', ''abc'', ''def'']" by simp
  have o: "''ab'' \<noteq> [] \<and> ''ab'' \<notin> set [''a'', ''aa'', ''aaab'', ''abc'', ''def'']" by simp
  from C3_membership[OF h, of "''aa''"] i
  have "contains (build [''a'', ''aa'', ''aaab'', ''abc'', ''def'']) ''aa'' = JBool True"
    by blast
  moreover from C3_membership[OF h, of "''ab''"] o
  have "contains (build [''a'', ''aa'', ''aaab'', ''abc'', ''def'']) ''ab'' \<in> {JBool False, JNull}"
    by blast
  ultimately show ?thesis using h by blast
qed

text \<open>
  Claim C4: for a trie built from non-empty strings by construction and by calls of
  \<^verbatim>\<open>addCompletion\<close>, \<^verbatim>\<open>size\<close> is the number of distinct strings stored, which is the
  number of nodes whose flag is set; \<^verbatim>\<open>addCompletion\<close> of a string that is not yet
  contained adds exactly 1 to \<^verbatim>\<open>size\<close>, and of a contained string leaves it unchanged;
  construction sets \<^verbatim>\<open>size\<close> to the number of distinct input strings, and returns as
  soon as the random source has produced every index.
\<close>

theorem C4_size_accounting:
  assumes "[] \<notin> set xs" and "s \<noteq> []"
  shows "size_c (build xs) = card (set xs)
    \<and> countCompletions (root (build xs)) = card (set xs)
    \<and> (s \<notin> set xs \<longrightarrow> size_c (addCompletion (build xs) s) = size_c (build xs) + 1)
    \<and> (s \<in> set xs \<longrightarrow> size_c (addCompletion (build xs) s) = size_c (build xs))
    \<and> (new_Completer xs draws = Some t \<longrightarrow>
          size_c t = card (set xs) \<and> countCompletions (root t) = card (set xs))
    \<and> (set draws = {..<length xs} \<longrightarrow> (\<exists>t'. new_Completer xs draws = Some t'))"
proof -
  have c: "truthy (contains (build xs) s) \<longleftrightarrow> s \<in> set xs"
    using assms by (rule build_contains)
  have n: "size_c t = card (set xs) \<and> countCompletions (root t) = card (set xs)"
    if "new_Completer xs draws = Some t"
  proof -
    from new_Completer_build[OF that] obtain ys where ys: "mset ys = mset xs" "t = build ys"
      by blast
    then have "set ys = set xs" by (metis set_mset_mset)
    with assms(1) ys(2) show ?thesis by (simp add: build_size build_count)
  qed
  show ?thesis
    using assms(1) c n new_Completer_returns[of draws xs]
    by (simp add: build_size build_count size_addCompletion)
qed

theorem C4_size_accounting_witness:
  "[] \<notin> set [''b'', ''a'', ''c'', ''a''] \<and> ''ab'' \<noteq> []
   \<and> size_c (build [''b'', ''a'', ''c'', ''a'']) = 3
   \<and> countCompletions (root (build [''b'', ''a'', ''c'', ''a''])) = 3
   \<and> size_c (addCompletion (build [''b'', ''a'', ''c'', ''a'']) ''ab'') = 4
   \<and> new_Completer [''b'', ''a'', ''c'', ''a''] [2, 2, 0, 3, 0, 1]
        = Some (build [''c'', ''b'', ''a'', ''a''])
   \<and> size_c (build [''c'', ''b'', ''a'', ''a'']) = 3"
proof -
  have h: "[] \<notin> set [''b'', ''a'', ''c'', ''a'']" "''ab'' \<noteq> []" by simp_all
  have k: "card (set [''b'', ''a'', ''c'', ''a'']) = 3" by code_simp
  have o: "''ab'' \<notin> set [''b'', ''a'', ''c'', ''a'']" by simp
  have r: "new_Completer [''b'', ''a'', ''c'', ''a''] [2, 2, 0, 3, 0, 1]
      = Some (build [''c'', ''b'', ''a'', ''a''])"
    by code_simp
  from C4_size_accounting[OF h, of "[2, 2, 0, 3, 0, 1]" "build [''c'', ''b'', ''a'', ''a'']"]
  show ?thesis using h k o r by simp
qed

text \<open>
  Claim C5: for every trie, every non-empty prefix \<open>p\<close> and every positive integer
  \<open>k\<close>, \<^verbatim>\<open>getCompletions(p, k)\<close> returns at most \<open>k\<close> strings, and the returned list is
  a prefix, as a list, of the result of \<^verbatim>\<open>getCompletions(p)\<close> without a limit. It is in
  fact its first \<open>k\<close> elements, and this holds for any prefix argument.
\<close>

theorem C5_limit_respected:
  assumes "0 < k"
  shows "length (getCompletions t pre (Some k)) \<le> nat k
    \<and> prefix (getCompletions t pre (Some k)) (getCompletions t pre None)
    \<and> getCompletions t pre (Some k) = take (nat k) (getCompletions t pre None)"
proof -
  have "getCompletions t pre (Some k) = take (nat k) (getCompletions t pre None)"
  proof (cases pre)
    case None
    then show ?thesis by (simp add: getCompletions_def)
  next
    case (Some p)
    show ?thesis
    proof (cases "trie_get (root t) p 0")
      case Null
      then show ?thesis by (simp add: getCompletions_def Some)
    next
      case (Node nc l m r f)
      define cs where "cs = (if truthy f then [p] else [])"
      have "int (length cs) \<le> k" using assms by (simp add: cs_def)
      then have "collectCompletions m p cs (Some k) = take (nat k) (cs @ entries m p)"
        using assms by (simp add: collect_limit)
      moreover have "take (nat k) cs = cs" using assms by (auto simp: cs_def)
      ultimately show ?thesis
        using Node by (simp add: getCompletions_def Some Let_def flip: cs_def)
    qed
  qed
  then show ?thesis by (simp add: take_is_prefix)
qed

theorem C5_limit_respected_witness:
  "(0::int) < 2
   \<and> getCompletions (build [''a'', ''aa'', ''aaab'', ''abc'', ''def'']) (Some ''a'') (Some 2)
       = [''a'', ''aa'']
   \<and> getCompletions (build [''a'', ''aa'', ''aaab'', ''abc'', ''def'']) (Some ''a'') None
       = [''a'', ''aa'', ''aaab'', ''abc'']
   \<and> prefix (getCompletions (build [''a'', ''aa'', ''aaab'', ''abc'', ''def'']) (Some ''a'') (Some 2))
        (getCompletions (build [''a'', ''aa'', ''aaab'', ''abc'', ''def'']) (Some ''a'') None)"
proof -
  have h: "(0::int) < 2" by simp
  have e: "getCompletions (build [''a'', ''aa'', ''aaab'', ''abc'', ''def'']) (Some ''a'') None
      = [''a'', ''aa'', ''aaab'', ''abc'']"
    by code_simp
  from C5_limit_respected[OF h, of "build [''a'', ''aa'', ''aaab'', ''abc'', ''def'']" "Some ''a''"]
  show ?thesis using e by simp
qed

text \<open>
  Claim C6: inserting a string a second time changes nothing that can be observed. A
  second \<^verbatim>\<open>addCompletion(s)\<close> returns the very same state as the first, and
  \<^verbatim>\<open>addCompletion\<close> of a string that \<^verbatim>\<open>contains\<close> already reports leaves every result
  of \<^verbatim>\<open>contains\<close> and of \<^verbatim>\<open>getCompletions\<close> (any prefix, any limit) and \<^verbatim>\<open>size\<close> as
  they were.
\<close>

theorem C6_idempotent_insertion:
  "addCompletion (addCompletion t s) s = addCompletion t s
   \<and> contains (addCompletion (addCompletion t s) s) q = contains (addCompletion t s) q
   \<and> getCompletions (addCompletion (addCompletion t s) s) pre limit
       = getCompletions (addCompletion t s) pre limit
   \<and> (truthy (contains t s) \<longrightarrow>
        addCompletion t s = t
        \<and> contains (addCompletion t s) q = contains t q
        \<and> getCompletions (addCompletion t s) pre limit = getCompletions t pre limit
        \<and> size_c (addCompletion t s) = size_c t)"
proof -
  have "truthy (contains (addCompletion t s) s)" by (simp add: contains_add)
  then have "addCompletion (addCompletion t s) s = addCompletion t s" by (rule add_contained)
  moreover have "addCompletion t s = t" if "truthy (contains t s)"
    using that by (rule add_contained)
  ultimately show ?thesis by simp
qed

theorem C6_idempotent_insertion_witness:
  "truthy (contains (build [''abc'', ''ab'']) ''ab'')
   \<and> addCompletion (build [''abc'', ''ab'']) ''ab'' = build [''abc'', ''ab'']
   \<and> getCompletions (addCompletion (build [''abc'', ''ab'']) ''ab'') (Some ''a'') None
       = [''ab'', ''abc'']
   \<and> size_c (addCompletion (build [''abc'', ''ab'']) ''ab'') = 2"
proof -
  have h: "truthy (contains (build [''abc'', ''ab'']) ''ab'')" by code_simp
  have g: "getCompletions (build [''abc'', ''ab'']) (Some ''a'') None = [''ab'', ''abc'']"
    by code_simp
  have z: "size_c (build [''abc'', ''ab'']) = 2" by code_simp
  from C6_idempotent_insertion[of "build [''abc'', ''ab'']" "''ab''" "[]" "Some ''a''" None]
  show ?thesis using h g z by simp
qed

text \<open>
  Claim C7: in every trie reached by construction and by calls of \<^verbatim>\<open>addCompletion\<close>,
  every node satisfies the search-tree discipline: the characters of the nodes reached
  from its \<^verbatim>\<open>left\<close> link along the same level are strictly less than its own
  character, those reached from its \<^verbatim>\<open>right\<close> link strictly greater; and every
  \<^verbatim>\<open>_put\<close> preserves this. The nodes below a \<^verbatim>\<open>mid\<close> link spell the next position
  and form a search tree of their own. With non-empty strings every node holds a
  character.
\<close>

theorem C7_search_tree_order:
  "(ordered n \<longrightarrow> ordered (trie_put n s d))
   \<and> ordered (root (build xs))
   \<and> ([] \<notin> set xs \<longrightarrow> defined_chars (root (build xs)))
   \<and> (new_Completer xs draws = Some t \<longrightarrow> ordered (root t))"
proof -
  have "ordered (root t)" if "new_Completer xs draws = Some t"
    using new_Completer_build[OF that] build_ordered by blast
  then show ?thesis by (simp add: put_ordered build_ordered build_defined)
qed

theorem C7_search_tree_order_witness:
  "ordered (Node (Some CHR ''m'') (Node (Some CHR ''c'') Null Null Null (JBool True)) Null
      (Node (Some CHR ''t'') Null Null Null (JBool True)) (JBool True))
   \<and> ordered (trie_put (Node (Some CHR ''m'') (Node (Some CHR ''c'') Null Null Null (JBool True))
      Null (Node (Some CHR ''t'') Null Null Null (JBool True)) (JBool True)) ''dog'' 0)
   \<and> [] \<notin> set [''m'', ''c'', ''t'', ''dog'']
   \<and> ordered (root (build [''m'', ''c'', ''t'', ''dog'']))
   \<and> defined_chars (root (build [''m'', ''c'', ''t'', ''dog'']))
   \<and> level_chars (root (build [''m'', ''c'', ''t'', ''dog'']))
       = [Some CHR ''c'', Some CHR ''d'', Some CHR ''m'', Some CHR ''t'']"
proof -
  have o: "ordered (Node (Some CHR ''m'') (Node (Some CHR ''c'') Null Null Null (JBool True)) Null
      (Node (Some CHR ''t'') Null Null Null (JBool True)) (JBool True))"
    by code_simp
  have h: "[] \<notin> set [''m'', ''c'', ''t'', ''dog'']" by simp
  have l: "level_chars (root (build [''m'', ''c'', ''t'', ''dog'']))
       = [Some CHR ''c'', Some CHR ''d'', Some CHR ''m'', Some CHR ''t'']"
    by code_simp
  from C7_search_tree_order[of "Node (Some CHR ''m'') (Node (Some CHR ''c'') Null Null Null (JBool True))
      Null (Node (Some CHR ''t'') Null Null Null (JBool True)) (JBool True)" "''dog''" 0
      "[''m'', ''c'', ''t'', ''dog'']"]
  show ?thesis using o h l by blast
qed

text \<open>
  Claim C8: whatever the trie holds, \<^verbatim>\<open>getCompletions\<close> called with the empty string,
  or with no prefix at all, returns the empty list (for any limit).
\<close>

theorem C8_empty_prefix:
  "getCompletions t (Some []) limit = [] \<and> getCompletions t None limit = []"
  by (simp add: getCompletions_def)

theorem C8_empty_prefix_witness:
  "getCompletions (build [''b'', ''a'', ''c'']) (Some '''') None = []
   \<and> getCompletions (build [''b'', ''a'', ''c'']) None (Some 2) = []
   \<and> getCompletions (build [''b'', ''a'', ''c'']) (Some ''a'') None = [''a'']"
proof -
  have "getCompletions (build [''b'', ''a'', ''c'']) (Some ''a'') None = [''a'']"
    by code_simp
  with C8_empty_prefix[of "build [''b'', ''a'', ''c'']" None]
    C8_empty_prefix[of "build [''b'', ''a'', ''c'']" "Some 2"]
  show ?thesis by simp
qed

text \<open>
  Claim C9: \<^verbatim>\<open>getCompletions(p, 0)\<close> returns what \<^verbatim>\<open>getCompletions(p)\<close> returns
  without a limit, since the early-stop test is guarded by the truthiness of the limit.
\<close>

theorem C9_zero_limit:
  "getCompletions t pre (Some 0) = getCompletions t pre None"
  by (simp add: getCompletions_def Let_def split: option.split)

theorem C9_zero_limit_witness:
  "getCompletions (build [''a'', ''aa'', ''aaab'', ''abc'', ''def'']) (Some ''a'') (Some 0)
     = [''a'', ''aa'', ''aaab'', ''abc'']"
proof -
  have "getCompletions (build [''a'', ''aa'', ''aaab'', ''abc'', ''def'']) (Some ''a'') None
      = [''a'', ''aa'', ''aaab'', ''abc'']"
    by code_simp
  with C9_zero_limit[of "build [''a'', ''aa'', ''aaab'', ''abc'', ''def'']" "Some ''a''"]
  show ?thesis by simp
qed

text \<open>
  Claim C10: when the descent for \<open>s\<close> reaches a node whose flag was never set,
  \<^verbatim>\<open>contains(s)\<close> returns \<^verbatim>\<open>null\<close>; in a reachable trie it returns the literal
  \<^verbatim>\<open>false\<close> exactly when the descent finds no node. In particular a non-empty strict
  prefix of a stored string that is not stored itself is answered with \<^verbatim>\<open>null\<close>.
\<close>

theorem C10_contains_null:
  "(trie_get (root t) s 0 \<noteq> Null \<and> isCompletion (trie_get (root t) s 0) = JNull
      \<longrightarrow> contains t s = JNull)
   \<and> (contains (build xs) s = JBool False \<longleftrightarrow> trie_get (root (build xs)) s 0 = Null)
   \<and> ([] \<notin> set xs \<and> s \<noteq> [] \<and> s \<notin> set xs \<and> (\<exists>x \<in> set xs. prefix s x)
      \<longrightarrow> contains (build xs) s = JNull)"
proof -
  have nf: "isCompletion (trie_get (root (build xs)) s 0) \<noteq> JBool False"
    if "trie_get (root (build xs)) s 0 \<noteq> Null"
    using that get_flags[OF build_flags, of xs s 0]
    by (cases "trie_get (root (build xs)) s 0") auto
  have 2: "contains (build xs) s = JBool False \<longleftrightarrow> trie_get (root (build xs)) s 0 = Null"
    using nf by (auto simp: contains_def Let_def)
  have 3: "contains (build xs) s = JNull"
    if a: "[] \<notin> set xs" "s \<noteq> []" "s \<notin> set xs" and b: "\<exists>x \<in> set xs. prefix s x"
  proof -
    from b a(1) have "filter (prefix s) (entries (root (build xs)) []) \<noteq> []"
      by (auto simp: filter_empty_conv build_entries)
    then have "trie_get (root (build xs)) s 0 \<noteq> Null"
      using get_filter[OF build_defined build_ordered, of xs 0 s] a(1,2) by auto
    with 2 have "contains (build xs) s \<noteq> JBool False" by simp
    moreover have "\<not> truthy (contains (build xs) s)" using a by (simp add: build_contains)
    ultimately show ?thesis by (cases "contains (build xs) s") auto
  qed
  show ?thesis using 2 3 by (auto simp: contains_def Let_def)
qed

theorem C10_contains_null_witness:
  "[] \<notin> set [''abc''] \<and> ''ab'' \<noteq> [] \<and> ''ab'' \<notin> set [''abc''] \<and> prefix ''ab'' ''abc''
   \<and> contains (build [''abc'']) ''ab'' = JNull
   \<and> contains (build [''abc'']) ''abc'' = JBool True
   \<and> trie_get (root (build [''abc''])) ''x'' 0 = Null
   \<and> contains (build [''abc'']) ''x'' = JBool False"
proof -
  have h: "[] \<notin> set [''abc''] \<and> ''ab'' \<noteq> [] \<and> ''ab'' \<notin> set [''abc'']
      \<and> (\<exists>x \<in> set [''abc'']. prefix ''ab'' x)"
    by simp
  have g: "trie_get (root (build [''abc''])) ''x'' 0 = Null" by code_simp
  have c: "contains (build [''abc'']) ''abc'' = JBool True" by code_simp
  from C10_contains_null[of "build [''abc'']" "''ab''" "[''abc'']"] h
  have 1: "contains (build [''abc'']) ''ab'' = JNull" by blast
  from C10_contains_null[of "build [''abc'']" "''x''" "[''abc'']"] g
  have 2: "contains (build [''abc'']) ''x'' = JBool False" by blast
  show ?thesis using h g c 1 2 by simp
qed

end
